theory Spec2Isabelle
  imports Complex_Main "HOL-Library.Char_ord" "HOL-Library.List_Lexorder"
    "HOL-Library.Multiset"
begin

section \<open>Consensus pharmacophore: the data model\<close>

text \<open>
  The development follows \<^verbatim>\<open>compute_concensus_pharmacophore\<close> of
  \<^verbatim>\<open>PyPharmer/Pharmacophores.py\<close> and its two nested helpers
  \<^verbatim>\<open>__compute_cluster\<close> and \<^verbatim>\<open>__compute_center_of_mass_and_radius\<close>.

  Conventions of the embedding.
  \<^item> Python floats are read as real numbers: rounding, NaN and infinities are outside
    the model, so every statement below is about the exact arithmetic of the algorithm.
  \<^item> A DataFrame is the list of its rows. The three columns the function adds
    (\<^verbatim>\<open>cluster\<close>, \<^verbatim>\<open>weight\<close>, \<^verbatim>\<open>balance\<close>) are optional fields of a row;
    reading such a column from a row that does not have it is a \<^verbatim>\<open>KeyError\<close>.
  \<^item> DataFrames are objects: the store maps an address to the frame held there, and
    \<^verbatim>\<open>table[col] = values\<close> overwrites the frame at the address of \<^verbatim>\<open>table\<close>.
  \<^item> Every exception is a value \<open>Inl e\<close> of the result.
\<close>

datatype error = UnboundLocalError | KeyError | ZeroDivisionError | ValueError | IndexError

record point =
  idx :: nat
  name :: string
  pos_x :: real
  pos_y :: real
  pos_z :: real
  radius :: real
  color :: string
  cluster :: "nat option"
  weight :: "nat option"
  balance :: "real option"

type_synonym frame = "point list"

type_synonym addr = nat

record store =
  heap :: "addr \<Rightarrow> frame"
  next_addr :: addr

text \<open>One row of the returned \<^verbatim>\<open>Concensus\<close> table; \<open>c_index\<close> is its index label.\<close>

record cpoint =
  c_index :: nat
  c_name :: string
  c_cluster :: nat
  c_x :: real
  c_y :: real
  c_z :: real
  c_radius :: real
  c_color :: string
  c_weight :: nat
  c_balance :: real

section \<open>Library functions the code calls\<close>

subsection \<open>Distances: \<^verbatim>\<open>scipy.spatial.distance_matrix\<close> and \<^verbatim>\<open>pdist\<close>\<close>

definition euclidean :: "real list \<Rightarrow> real list \<Rightarrow> real" where
  "euclidean u v = sqrt (\<Sum>(a, b)\<leftarrow>zip u v. (a - b)\<^sup>2)"

text \<open>\<^verbatim>\<open>distance_matrix(x, y)\<close>: entry \<open>(i, j)\<close> is the distance of row \<open>i\<close> of \<open>x\<close>
  to row \<open>j\<close> of \<open>y\<close>.\<close>

definition distance_matrix :: "real list list \<Rightarrow> real list list \<Rightarrow> real list list" where
  "distance_matrix xs ys = map (\<lambda>u. map (\<lambda>v. euclidean u v) ys) xs"

text \<open>\<^verbatim>\<open>pdist(X)\<close> takes the rows of \<open>X\<close> as observation vectors and returns their
  pairwise Euclidean distances in the order \<open>(0,1), (0,2), \<dots>, (1,2), \<dots>\<close>.\<close>

fun pdist :: "real list list \<Rightarrow> real list" where
  "pdist [] = []"
| "pdist (u # us) = map (euclidean u) us @ pdist us"

text \<open>\<^verbatim>\<open>squareform\<close> on a square matrix: its strict upper triangle, row by row. The code
  never calls it; it is what "the condensed form of the matrix" means.\<close>

fun condensed :: "real list list \<Rightarrow> real list" where
  "condensed [] = []"
| "condensed (r # rs) = drop 1 r @ condensed (map (drop 1) rs)"

subsection \<open>Dendrograms: \<^verbatim>\<open>scipy.cluster.hierarchy.linkage\<close>, method \<^verbatim>\<open>complete\<close>\<close>

text \<open>
  The linkage matrix \<open>Z\<close> is read as the binary tree it encodes: observation \<open>i\<close> is
  \<open>Leaf i\<close>, and row \<open>k\<close> of \<open>Z\<close>, which merges two earlier clusters at some height, is a
  \<open>Node\<close> whose left child is the cluster with the smaller identifier, as in \<open>Z\<close>.
\<close>

datatype dendro = Leaf nat | Node dendro real dendro

fun leaves :: "dendro \<Rightarrow> nat list" where
  "leaves (Leaf i) = [i]"
| "leaves (Node l h r) = leaves l @ leaves r"

fun maxl :: "real list \<Rightarrow> real" where
  "maxl [] = 0"
| "maxl (d # ds) = fold max ds d"

text \<open>\<^verbatim>\<open>num_obs_y\<close>: the number of observations behind a condensed vector.\<close>

definition num_obs_y :: "real list \<Rightarrow> nat" where
  "num_obs_y dm = nat \<lceil>sqrt (2 * real (length dm))\<rceil>"

definition condensed_index :: "nat \<Rightarrow> nat \<Rightarrow> nat \<Rightarrow> nat" where
  "condensed_index n i j = n * i - i * (i + 1) div 2 + (j - i - 1)"

definition obs_dist :: "nat \<Rightarrow> real list \<Rightarrow> nat \<Rightarrow> nat \<Rightarrow> real" where
  "obs_dist n dm a b =
     (if a = b then 0 else dm ! condensed_index n (min a b) (max a b))"

text \<open>Complete linkage: two clusters are as far apart as their farthest members.\<close>

definition complete_dist :: "nat \<Rightarrow> real list \<Rightarrow> dendro \<Rightarrow> dendro \<Rightarrow> real" where
  "complete_dist n dm A B =
     maxl (concat (map (\<lambda>a. map (\<lambda>b. obs_dist n dm a b) (leaves B)) (leaves A)))"

definition pairs :: "nat \<Rightarrow> (nat \<times> nat) list" where
  "pairs k = concat (map (\<lambda>i. map (\<lambda>j. (i, j)) [Suc i..<k]) [0..<k])"

definition closest :: "nat \<Rightarrow> real list \<Rightarrow> dendro list \<Rightarrow> (nat \<times> nat) option" where
  "closest n dm cs =
     (let cd = (\<lambda>(i, j). complete_dist n dm (cs ! i) (cs ! j))
      in case pairs (length cs) of
           [] \<Rightarrow> None
         | p # ps \<Rightarrow> Some (fold (\<lambda>q best. if cd q < cd best then q else best) ps p))"

text \<open>One merge: the two closest clusters leave the list of live clusters, and the
  cluster that joins them is appended (it gets the next identifier).\<close>

definition merge_step :: "nat \<Rightarrow> real list \<Rightarrow> dendro list \<Rightarrow> dendro list" where
  "merge_step n dm cs =
     (case closest n dm cs of
        None \<Rightarrow> cs
      | Some (i, j) \<Rightarrow>
          map (\<lambda>k. cs ! k) (filter (\<lambda>k. k \<noteq> i \<and> k \<noteq> j) [0..<length cs])
            @ [Node (cs ! i) (complete_dist n dm (cs ! i) (cs ! j)) (cs ! j)])"

definition linkage :: "real list \<Rightarrow> error + dendro" where
  "linkage dm =
     (let n = num_obs_y dm
      in if dm = [] \<or> n * (n - 1) div 2 \<noteq> length dm then Inl ValueError
         else case ((merge_step n dm) ^^ (n - 1)) (map Leaf [0..<n]) of
                [t] \<Rightarrow> Inr t
              | _ \<Rightarrow> Inl ValueError)"

subsection \<open>Flat clusters: \<^verbatim>\<open>fcluster\<close> with criterion \<^verbatim>\<open>distance\<close>\<close>

text \<open>The largest merge height in the subtree of a merge (leaves have none).\<close>

fun max_dists :: "dendro \<Rightarrow> real" where
  "max_dists (Leaf i) = 0"
| "max_dists (Node l h r) =
     (let m = h;
          m = (case l of Leaf _ \<Rightarrow> m | Node _ _ _ \<Rightarrow> max m (max_dists l));
          m = (case r of Leaf _ \<Rightarrow> m | Node _ _ _ \<Rightarrow> max m (max_dists r))
      in m)"

text \<open>
  The traversal of \<^verbatim>\<open>cluster_monocrit\<close>. The state is the number of clusters found so far
  and the array \<open>T\<close> of cluster ids; \<open>inside\<close> says that an ancestor is the leader of the
  current cluster. A merge whose subtree stays within the cutoff opens a new cluster unless
  one is open; its internal children are visited first, left before right, then its
  leaf children get their ids; a leaf outside every cluster is a cluster of its own.
\<close>

definition assign_leaf :: "bool \<Rightarrow> nat \<Rightarrow> nat \<times> nat list \<Rightarrow> nat \<times> nat list" where
  "assign_leaf inside i s =
     (case s of (k, T) \<Rightarrow> if inside then (k, T[i := k]) else (Suc k, T[i := Suc k]))"

definition assign_child :: "bool \<Rightarrow> dendro \<Rightarrow> nat \<times> nat list \<Rightarrow> nat \<times> nat list" where
  "assign_child inside child s =
     (case child of Leaf i \<Rightarrow> assign_leaf inside i s | Node _ _ _ \<Rightarrow> s)"

text \<open>Only merges are pushed on the stack of the traversal: visiting a leaf child does
  nothing, it is handled by \<open>assign_child\<close> once both internal children are done.\<close>

fun cluster_monocrit :: "real \<Rightarrow> bool \<Rightarrow> dendro \<Rightarrow> nat \<times> nat list \<Rightarrow> nat \<times> nat list" where
  "cluster_monocrit cutoff inside (Leaf i) s = s"
| "cluster_monocrit cutoff inside (Node l h r) s =
     (let lead = (\<not> inside \<and> max_dists (Node l h r) \<le> cutoff);
          s0 = (if lead then (Suc (fst s), snd s) else s);
          ins = (inside \<or> lead);
          s1 = cluster_monocrit cutoff ins l s0;
          s2 = cluster_monocrit cutoff ins r s1;
          s3 = assign_child ins l s2;
          s4 = assign_child ins r s3
      in s4)"

definition fcluster :: "dendro \<Rightarrow> real \<Rightarrow> nat list" where
  "fcluster Z t = snd (cluster_monocrit t False Z (0, replicate (length (leaves Z)) 0))"

subsection \<open>\<^verbatim>\<open>sklearn.preprocessing.normalize\<close> with \<^verbatim>\<open>norm="l1"\<close>, \<^verbatim>\<open>numpy.average\<close>\<close>

text \<open>A row whose norm is zero is divided by one.\<close>

definition normalize_l1 :: "real list \<Rightarrow> real list" where
  "normalize_l1 ws =
     (let norms = (\<Sum>w\<leftarrow>ws. \<bar>w\<bar>);
          norms = (if norms = 0 then 1 else norms)
      in map (\<lambda>w. w / norms) ws)"

text \<open>\<^verbatim>\<open>np.average(a, axis=1, weights=w)\<close>: one weighted mean per row of \<open>a\<close>.\<close>

definition average :: "real list list \<Rightarrow> real list \<Rightarrow> error + real list" where
  "average a w =
     (let scl = sum_list w
      in if scl = 0 then Inl ZeroDivisionError
         else Inr (map (\<lambda>r. (\<Sum>(v, wi)\<leftarrow>zip r w. v * wi) / scl) a))"

section \<open>The store\<close>

definition alloc :: "frame \<Rightarrow> store \<Rightarrow> addr \<times> store" where
  "alloc f s =
     (next_addr s, s\<lparr>heap := (heap s)(next_addr s := f), next_addr := Suc (next_addr s)\<rparr>)"

text \<open>\<^verbatim>\<open>table.groupby(col).get_group(key)\<close> builds a new frame from the rows of the group.\<close>

definition get_group_name :: "addr \<Rightarrow> string \<Rightarrow> store \<Rightarrow> addr \<times> store" where
  "get_group_name a g s = alloc (filter (\<lambda>p. name p = g) (heap s a)) s"

definition get_group_cluster :: "addr \<Rightarrow> nat \<Rightarrow> store \<Rightarrow> addr \<times> store" where
  "get_group_cluster a cg s = alloc (filter (\<lambda>p. cluster p = Some cg) (heap s a)) s"

text \<open>\<^verbatim>\<open>table['cluster'] = values\<close> and its two siblings write one value per row into the
  frame at the address of \<^verbatim>\<open>table\<close>.\<close>

definition setitem_cluster :: "addr \<Rightarrow> nat list \<Rightarrow> store \<Rightarrow> store" where
  "setitem_cluster a vs s =
     s\<lparr>heap := (heap s)(a := map (\<lambda>(p, v). p\<lparr>cluster := Some v\<rparr>) (zip (heap s a) vs))\<rparr>"

definition setitem_weight :: "addr \<Rightarrow> nat list \<Rightarrow> store \<Rightarrow> store" where
  "setitem_weight a vs s =
     s\<lparr>heap := (heap s)(a := map (\<lambda>(p, v). p\<lparr>weight := Some v\<rparr>) (zip (heap s a) vs))\<rparr>"

definition setitem_balance :: "addr \<Rightarrow> real list \<Rightarrow> store \<Rightarrow> store" where
  "setitem_balance a vs s =
     s\<lparr>heap := (heap s)(a := map (\<lambda>(p, v). p\<lparr>balance := Some v\<rparr>) (zip (heap s a) vs))\<rparr>"

section \<open>The Per-Type Clusterer: \<^verbatim>\<open>__compute_cluster\<close>\<close>

definition coords :: "point \<Rightarrow> real list" where
  "coords p = [pos_x p, pos_y p, pos_z p]"

text \<open>The proximity count of line 336: the entries of a matrix row that are at most 1.5.\<close>

definition row_weight :: "real list \<Rightarrow> nat" where
  "row_weight row = length (filter (\<lambda>distance. distance \<le> 1.5) row)"

text \<open>
  With more than two rows the function fills the three columns of the frame it was given.
  Otherwise the body of the \<^verbatim>\<open>if\<close> is skipped and the \<^verbatim>\<open>return\<close> reads
  \<^verbatim>\<open>linkage\<close> and \<^verbatim>\<open>matrix\<close>, which were never assigned.
\<close>

definition compute_cluster ::
  "addr \<Rightarrow> store \<Rightarrow> (error + dendro \<times> real list list \<times> addr) \<times> store" where
  "compute_cluster table s =
     (if length (heap s table) > 2 then
        let matrix = distance_matrix (map coords (heap s table)) (map coords (heap s table));
            dm = pdist matrix
        in case linkage dm of
             Inl e \<Rightarrow> (Inl e, s)
           | Inr lnk \<Rightarrow>
               let clusters = fcluster lnk (0.17 * maxl dm);
                   s1 = setitem_cluster table clusters s;
                   wt = map row_weight matrix;
                   s2 = setitem_weight table wt s1;
                   s3 = setitem_balance table (normalize_l1 (map real wt)) s2
               in (Inr (lnk, matrix, table), s3)
      else (Inl UnboundLocalError, s))"

section \<open>The Cluster Reducer: \<^verbatim>\<open>__compute_center_of_mass_and_radius\<close>\<close>

definition column_weight :: "frame \<Rightarrow> error + nat list" where
  "column_weight tbl = (case those (map weight tbl) of None \<Rightarrow> Inl KeyError | Some ws \<Rightarrow> Inr ws)"

definition column_balance :: "frame \<Rightarrow> error + real list" where
  "column_balance tbl = (case those (map balance tbl) of None \<Rightarrow> Inl KeyError | Some bs \<Rightarrow> Inr bs)"

definition column_cluster :: "frame \<Rightarrow> error + nat list" where
  "column_cluster tbl = (case those (map cluster tbl) of None \<Rightarrow> Inl KeyError | Some cs \<Rightarrow> Inr cs)"

text \<open>Half the distance from the centre of mass to the farthest row (line 347).\<close>

definition raw_radius :: "real list \<Rightarrow> frame \<Rightarrow> error + real" where
  "raw_radius center_of_mass tbl =
     (case map (\<lambda>p. euclidean center_of_mass (coords p)) tbl of
        [] \<Rightarrow> Inl ValueError
      | d # ds \<Rightarrow> Inr (fold max ds d / 2))"

text \<open>The floor of lines 349 to 352.\<close>

definition clamp_radius :: "frame \<Rightarrow> real \<Rightarrow> real" where
  "clamp_radius tbl r =
     (if r < 1 \<and> ''Hydrophobic'' \<in> set (map name tbl) then 1
      else if r < 0.5 \<and> ''Hydrophobic'' \<notin> set (map name tbl) then 0.5
      else r)"

definition compute_center_of_mass_and_radius :: "frame \<Rightarrow> error + real list \<times> real" where
  "compute_center_of_mass_and_radius tbl =
     (case column_weight tbl of
        Inl e \<Rightarrow> Inl e
      | Inr ws \<Rightarrow>
         (case average [map pos_x tbl, map pos_y tbl, map pos_z tbl] (map real ws) of
            Inl e \<Rightarrow> Inl e
          | Inr center_of_mass \<Rightarrow>
             (case raw_radius center_of_mass tbl of
                Inl e \<Rightarrow> Inl e
              | Inr r \<Rightarrow> Inr (center_of_mass, clamp_radius tbl r))))"

section \<open>The Consensus Assembler: \<^verbatim>\<open>compute_concensus_pharmacophore\<close>\<close>

text \<open>The artifacts kept per feature type: the distance matrix and the linkage.\<close>

type_synonym links = "string \<Rightarrow> (real list list \<times> dendro) option"

definition mean :: "real list \<Rightarrow> real" where
  "mean bs = sum_list bs / real (length bs)"

text \<open>The body of the inner loop for one cluster id \<open>cg\<close>: one row of \<^verbatim>\<open>Concensus\<close>.\<close>

definition consensus_row :: "nat \<Rightarrow> string \<Rightarrow> nat \<Rightarrow> frame \<Rightarrow> error + cpoint" where
  "consensus_row index grp cg clus =
     (case compute_center_of_mass_and_radius clus of
        Inl e \<Rightarrow> Inl e
      | Inr (center_of_mass, r) \<Rightarrow>
         (case clus of
            [] \<Rightarrow> Inl IndexError
          | first # _ \<Rightarrow>
             (case column_balance clus of
                Inl e \<Rightarrow> Inl e
              | Inr bs \<Rightarrow>
                 Inr \<lparr>c_index = index, c_name = grp, c_cluster = cg,
                      c_x = center_of_mass ! 0, c_y = center_of_mass ! 1,
                      c_z = center_of_mass ! 2, c_radius = r, c_color = color first,
                      c_weight = length clus, c_balance = mean bs\<rparr>)))"

text \<open>The inner loop over the cluster ids of one feature type, in ascending order.\<close>

fun reduce_clusters ::
  "string \<Rightarrow> addr \<Rightarrow> nat list \<Rightarrow> nat \<times> cpoint list \<Rightarrow> store
     \<Rightarrow> (error + nat \<times> cpoint list) \<times> store" where
  "reduce_clusters grp dc [] acc s = (Inr acc, s)"
| "reduce_clusters grp dc (cg # cgs) acc s =
     (case get_group_cluster dc cg s of
        (clus, s1) \<Rightarrow>
          (case consensus_row (fst acc) grp cg (heap s1 clus) of
             Inl e \<Rightarrow> (Inl e, s1)
           | Inr row \<Rightarrow> reduce_clusters grp dc cgs (Suc (fst acc), snd acc @ [row]) s1))"

text \<open>The outer loop over the feature types. The exports made when
  \<^verbatim>\<open>save_data_per_descriptor\<close> is set only read the frame and write files, which the
  store does not hold; the flag and the folder are carried along unused.\<close>

fun process_groups ::
  "addr \<Rightarrow> bool \<Rightarrow> string \<Rightarrow> string list \<Rightarrow> nat \<times> cpoint list \<times> links \<Rightarrow> store
     \<Rightarrow> (error + nat \<times> cpoint list \<times> links) \<times> store" where
  "process_groups table save_data out_folder [] acc s = (Inr acc, s)"
| "process_groups table save_data out_folder (grp # grps) acc s =
     (case acc of (index, concensus, lnks) \<Rightarrow>
       (case get_group_name table grp s of
          (g, s1) \<Rightarrow>
            (case compute_cluster g s1 of
               (Inl e, s2) \<Rightarrow> (Inl e, s2)
             | (Inr (lnk, matrix, descriptor_cluster), s2) \<Rightarrow>
                 (case column_cluster (heap s2 descriptor_cluster) of
                    Inl e \<Rightarrow> (Inl e, s2)
                  | Inr cs \<Rightarrow>
                     (case reduce_clusters grp descriptor_cluster (sort (remdups cs))
                             (index, concensus) s2 of
                        (Inl e, s3) \<Rightarrow> (Inl e, s3)
                      | (Inr (index', concensus'), s3) \<Rightarrow>
                          process_groups table save_data out_folder grps
                            (index', concensus', lnks(grp \<mapsto> (matrix, lnk))) s3)))))"

definition compute_concensus_pharmacophore ::
  "addr \<Rightarrow> bool \<Rightarrow> string \<Rightarrow> real \<Rightarrow> store \<Rightarrow> (error + cpoint list \<times> links) \<times> store" where
  "compute_concensus_pharmacophore table save_data_per_descriptor out_folder h_dist s =
     (case process_groups table save_data_per_descriptor out_folder
             (sort (remdups (map name (heap s table)))) (1, [], Map.empty) s of
        (Inl e, s') \<Rightarrow> (Inl e, s')
      | (Inr (index, concensus, lnks), s') \<Rightarrow> (Inr (concensus, lnks), s'))"

section \<open>Example tables\<close>

definition mk_point :: "nat \<Rightarrow> string \<Rightarrow> real \<Rightarrow> real \<Rightarrow> real \<Rightarrow> point" where
  "mk_point i n a b c =
     \<lparr>idx = i, name = n, pos_x = a, pos_y = b, pos_z = c, radius = 1, color = ''green'',
      cluster = None, weight = None, balance = None\<rparr>"

text \<open>A store that holds one table, at address 0.\<close>

definition store_of :: "frame \<Rightarrow> store" where
  "store_of tbl = \<lparr>heap = (\<lambda>a. if a = 0 then tbl else []), next_addr = 1\<rparr>"

definition two_hydrophobic :: frame where
  "two_hydrophobic = [mk_point 0 ''Hydrophobic'' 0 0 0, mk_point 1 ''Hydrophobic'' 1 0 0]"

definition single_cluster :: frame where
  "single_cluster = [(mk_point 0 ''Hydrophobic'' 2 3 5)\<lparr>cluster := Some 1, weight := Some 1,
     balance := Some 1\<rparr>]"

section \<open>Notions used to state the properties\<close>

text \<open>The leaves that a call of the traversal writes, now or when it returns.\<close>

definition written :: "dendro \<Rightarrow> nat set" where
  "written t = (case t of Leaf _ \<Rightarrow> {} | Node _ _ _ \<Rightarrow> set (leaves t))"

definition child_leaf :: "dendro \<Rightarrow> nat set" where
  "child_leaf t = (case t of Leaf i \<Rightarrow> {i} | Node _ _ _ \<Rightarrow> {})"

text \<open>\<open>fills L s s'\<close>: the ids of the leaves in \<open>L\<close> became the current cluster number, nothing
  else changed.\<close>

definition fills :: "nat set \<Rightarrow> nat \<times> nat list \<Rightarrow> nat \<times> nat list \<Rightarrow> bool" where
  "fills L s s' \<longleftrightarrow> fst s' = fst s \<and> length (snd s') = length (snd s)
     \<and> (\<forall>a < length (snd s). snd s' ! a = (if a \<in> L then fst s else snd s ! a))"

text \<open>Two observations are in the same flat cluster at cutoff \<open>c\<close>: some subtree that
  holds both has no merge above the cutoff (a leaf alone is its own cluster).\<close>

fun same_flat :: "real \<Rightarrow> dendro \<Rightarrow> nat \<Rightarrow> nat \<Rightarrow> bool" where
  "same_flat c (Leaf i) a b = (a = i \<and> b = i)"
| "same_flat c (Node l h r) a b =
     (if max_dists (Node l h r) \<le> c
      then a \<in> set (leaves (Node l h r)) \<and> b \<in> set (leaves (Node l h r))
      else same_flat c l a b \<or> same_flat c r a b)"

text \<open>\<open>numbers L J s s'\<close>: the leaves in \<open>L\<close> received the ids after the current
  cluster number, without a gap, equal ids exactly where \<open>J\<close> holds.\<close>

definition numbers ::
  "nat set \<Rightarrow> (nat \<Rightarrow> nat \<Rightarrow> bool) \<Rightarrow> nat \<times> nat list \<Rightarrow> nat \<times> nat list \<Rightarrow> bool" where
  "numbers L J s s' \<longleftrightarrow> fst s \<le> fst s' \<and> length (snd s') = length (snd s)
     \<and> (\<forall>a < length (snd s). a \<notin> L \<longrightarrow> snd s' ! a = snd s ! a)
     \<and> (\<lambda>a. snd s' ! a) ` L = {fst s <.. fst s'}
     \<and> (\<forall>a \<in> L. \<forall>b \<in> L. (snd s' ! a = snd s' ! b) = J a b)"

text \<open>A frame with the three columns of \<^verbatim>\<open>__compute_cluster\<close> filled in, row by row.\<close>

definition with_columns :: "frame \<Rightarrow> nat list \<Rightarrow> nat list \<Rightarrow> real list \<Rightarrow> frame" where
  "with_columns rows cl wt bal =
     map (\<lambda>i. (rows ! i)\<lparr>cluster := Some (cl ! i), weight := Some (wt ! i),
                          balance := Some (bal ! i)\<rparr>) [0..<length rows]"

section \<open>The linkage is a tree over the observations\<close>

lemma tri_even: "even (n * (n - 1))" for n :: nat
  by (cases n) auto

lemma tri_Suc: "Suc n * (Suc n - 1) div 2 = n + n * (n - 1) div 2"
proof -
  have "Suc n * (Suc n - 1) = 2 * n + n * (n - 1)" by (cases n) auto
  moreover have "(2 * n + n * (n - 1)) div 2 = n + n * (n - 1) div 2" by simp
  ultimately show ?thesis by simp
qed

lemma length_pdist: "length (pdist X) = length X * (length X - 1) div 2"
proof (induction X)
  case Nil
  then show ?case by simp
next
  case (Cons u us)
  show ?case using Cons tri_Suc [of "length us"] by simp
qed

lemma num_obs_y_triangular:
  assumes "2 \<le> n" "length dm = n * (n - 1) div 2"
  shows "num_obs_y dm = n"
proof -
  have "2 * (n * (n - 1) div 2) = n * (n - 1)" using tri_even [of n] by simp
  then have "real (2 * length dm) = real (n * (n - 1))"
    using assms by simp
  also have "\<dots> = real n * (real n - 1)"
    using assms by (simp add: of_nat_diff)
  finally have e: "2 * real (length dm) = real n * (real n - 1)" by simp
  have lo: "real n - 1 < sqrt (real n * (real n - 1))"
  proof (rule real_less_rsqrt)
    have "(real n - 1) * (real n - 1) < real n * (real n - 1)"
      using assms by (intro mult_strict_right_mono) auto
    then show "(real n - 1)\<^sup>2 < real n * (real n - 1)" by (simp add: power2_eq_square)
  qed
  have hi: "sqrt (real n * (real n - 1)) \<le> real n"
  proof (rule real_le_lsqrt)
    show "0 \<le> real n" by simp
    have "real n * (real n - 1) \<le> real n * real n"
      by (intro mult_left_mono) auto
    then show "real n * (real n - 1) \<le> (real n)\<^sup>2" by (simp add: power2_eq_square)
  qed
  have "\<lceil>sqrt (real n * (real n - 1))\<rceil> = int n"
  proof (rule ceiling_unique)
    show "of_int (int n) - 1 < sqrt (real n * (real n - 1))" using lo by simp
    show "sqrt (real n * (real n - 1)) \<le> of_int (int n)" using hi by simp
  qed
  then show ?thesis by (simp add: num_obs_y_def e)
qed

lemma in_pairs: "(i, j) \<in> set (pairs k) \<longleftrightarrow> i < j \<and> j < k"
proof -
  have "set (pairs k) = (\<Union>i\<in>{0..<k}. (\<lambda>j. (i, j)) ` {Suc i..<k})"
    by (simp add: pairs_def)
  then have "(i, j) \<in> set (pairs k) \<longleftrightarrow> (\<exists>a\<in>{0..<k}. (i, j) \<in> (\<lambda>j. (a, j)) ` {Suc a..<k})"
    by simp
  also have "\<dots> \<longleftrightarrow> (\<exists>a. a < k \<and> a = i \<and> Suc a \<le> j \<and> j < k)"
    by (simp add: image_iff Bex_def conj_ac)
  also have "\<dots> \<longleftrightarrow> i < j \<and> j < k" by (simp add: Suc_le_eq) linarith
  finally show ?thesis .
qed

lemma fold_pick_mem: "fold (\<lambda>q best. if P q best then q else best) ps p \<in> set (p # ps)"
  by (induction ps arbitrary: p) auto

lemma closest_Some:
  assumes "2 \<le> length cs"
  shows "\<exists>i j. closest n dm cs = Some (i, j) \<and> i < j \<and> j < length cs"
proof -
  have "(0, 1) \<in> set (pairs (length cs))" using assms by (simp add: in_pairs)
  then obtain p ps where ps: "pairs (length cs) = p # ps" by (cases "pairs (length cs)") auto
  define cd where "cd = (\<lambda>(i, j). complete_dist n dm (cs ! i) (cs ! j))"
  define r where "r = fold (\<lambda>q best. if cd q < cd best then q else best) ps p"
  have "r \<in> set (pairs (length cs))" unfolding ps r_def by (rule fold_pick_mem)
  then have "(fst r, snd r) \<in> set (pairs (length cs))" by simp
  then have "fst r < snd r \<and> snd r < length cs" by (simp only: in_pairs)
  moreover have "closest n dm cs = Some (fst r, snd r)"
    by (simp add: closest_def ps Let_def r_def cd_def)
  ultimately show ?thesis by blast
qed

lemma filter_two_upt:
  assumes "i < j" "j < n"
  shows "mset (filter (\<lambda>k. \<not> (k \<noteq> i \<and> k \<noteq> j)) [0..<n]) = {#i, j#}"
proof -
  let ?P = "\<lambda>k. \<not> (k \<noteq> i \<and> k \<noteq> j)"
  have s: "{x \<in> {0..<n}. ?P x} = {i, j}" using assms by auto
  have "mset (filter ?P [0..<n]) = filter_mset ?P (mset_set {0..<n})"
    by (simp only: mset_filter mset_upt)
  also have "\<dots> = mset_set {x \<in> {0..<n}. ?P x}"
    by (rule filter_mset_mset_set) simp
  also have "\<dots> = mset_set {i, j}" by (simp only: s)
  also have "\<dots> = {#i, j#}" using assms by simp
  finally show ?thesis .
qed

lemma mset_remove_two:
  assumes "i < j" "j < length cs"
  shows "mset (map (\<lambda>k. cs ! k) (filter (\<lambda>k. k \<noteq> i \<and> k \<noteq> j) [0..<length cs]))
           + {#cs ! i, cs ! j#} = mset cs"
proof -
  let ?P = "\<lambda>k. k \<noteq> i \<and> k \<noteq> j"
  let ?n = "length cs"
  have "mset cs = mset (map (\<lambda>k. cs ! k) [0..<?n])" by (simp only: map_nth)
  also have "\<dots> = image_mset (\<lambda>k. cs ! k) (mset (filter ?P [0..<?n]) + mset (filter (\<lambda>k. \<not> ?P k) [0..<?n]))"
    by (simp only: mset_map mset_filter flip: multiset_partition)
  also have "\<dots> = mset (map (\<lambda>k. cs ! k) (filter ?P [0..<?n])) + {#cs ! i, cs ! j#}"
    by (simp only: filter_two_upt [OF assms] image_mset_union mset_map) simp
  finally show ?thesis by simp
qed

lemma merge_step_props:
  assumes "2 \<le> length cs"
  shows "length (merge_step n dm cs) = length cs - 1"
    and "(\<Sum>t\<in>#mset (merge_step n dm cs). mset (leaves t)) = (\<Sum>t\<in>#mset cs. mset (leaves t))"
proof -
  obtain i j where c: "closest n dm cs = Some (i, j)" and ij: "i < j" "j < length cs"
    using closest_Some [OF assms] by blast
  let ?rest = "map (\<lambda>k. cs ! k) (filter (\<lambda>k. k \<noteq> i \<and> k \<noteq> j) [0..<length cs])"
  let ?node = "Node (cs ! i) (complete_dist n dm (cs ! i) (cs ! j)) (cs ! j)"
  have ms: "merge_step n dm cs = ?rest @ [?node]" by (simp add: merge_step_def c)
  have r: "mset ?rest + {#cs ! i, cs ! j#} = mset cs" by (rule mset_remove_two [OF ij])
  then have "size (mset ?rest + {#cs ! i, cs ! j#}) = size (mset cs)" by simp
  then have "length ?rest + 2 = length cs" by (simp only: size_union size_mset) simp
  then show "length (merge_step n dm cs) = length cs - 1" by (simp add: ms)
  have "(\<Sum>t\<in>#mset cs. mset (leaves t)) = (\<Sum>t\<in>#mset ?rest + {#cs ! i, cs ! j#}. mset (leaves t))"
    by (simp only: r)
  also have "\<dots> = (\<Sum>t\<in>#mset ?rest. mset (leaves t)) + mset (leaves ?node)"
    by (simp add: ac_simps)
  also have "\<dots> = (\<Sum>t\<in>#mset (merge_step n dm cs). mset (leaves t))"
    by (simp add: ms)
  finally show "(\<Sum>t\<in>#mset (merge_step n dm cs). mset (leaves t)) = (\<Sum>t\<in>#mset cs. mset (leaves t))"
    by simp
qed

lemma merge_steps_props:
  assumes "k < length cs"
  shows "length ((merge_step n dm ^^ k) cs) = length cs - k
     \<and> (\<Sum>t\<in>#mset ((merge_step n dm ^^ k) cs). mset (leaves t)) = (\<Sum>t\<in>#mset cs. mset (leaves t))"
  using assms
proof (induction k)
  case 0
  then show ?case by simp
next
  case (Suc k)
  then have ih: "length ((merge_step n dm ^^ k) cs) = length cs - k"
    "(\<Sum>t\<in>#mset ((merge_step n dm ^^ k) cs). mset (leaves t)) = (\<Sum>t\<in>#mset cs. mset (leaves t))"
    by simp_all
  have two: "2 \<le> length ((merge_step n dm ^^ k) cs)" using ih(1) Suc.prems by simp
  show ?case
    using merge_step_props [OF two, of n dm] ih Suc.prems by simp
qed

lemma linkage_pdist:
  assumes "2 \<le> length X"
  shows "\<exists>t. linkage (pdist X) = Inr t \<and> mset (leaves t) = mset [0..<length X]"
proof -
  let ?n = "length X"
  let ?dm = "pdist X"
  have n: "num_obs_y ?dm = ?n" by (rule num_obs_y_triangular [OF assms length_pdist])
  have "0 < ?n * (?n - 1) div 2"
  proof -
    have "2 \<le> ?n * (?n - 1)" using assms by (cases "?n"; cases "?n - 1") auto
    then show ?thesis by simp
  qed
  then have ne: "?dm \<noteq> []" using length_pdist [of X] by auto
  let ?f = "(merge_step ?n ?dm ^^ (?n - 1)) (map Leaf [0..<?n])"
  have k: "?n - 1 < length (map Leaf [0..<?n])" using assms by simp
  from merge_steps_props [OF k, of ?n ?dm]
  have len: "length ?f = 1"
    and lv: "(\<Sum>t\<in>#mset ?f. mset (leaves t)) = (\<Sum>t\<in>#mset (map Leaf [0..<?n]). mset (leaves t))"
    using assms by simp_all
  from len obtain t where t: "?f = [t]" by (cases ?f) auto
  have "(\<Sum>t\<in>#mset (map Leaf [0..<?n]). mset (leaves t)) = mset [0..<?n]"
    by (induction ?n) (simp_all add: image_mset.compositionality comp_def)
  with lv t have "mset (leaves t) = mset [0..<?n]" by simp
  moreover have "linkage ?dm = Inr t"
    using ne n t length_pdist [of X] by (simp add: linkage_def)
  ultimately show ?thesis by blast
qed

section \<open>The traversal numbers the flat clusters\<close>

lemma written_child_leaf: "written t \<union> child_leaf t = set (leaves t)"
  by (cases t) (simp_all add: written_def child_leaf_def)

lemma written_child_disj: "written t \<inter> child_leaf t = {}"
  by (cases t) (simp_all add: written_def child_leaf_def)

lemma written_Node: "written (Node l h r) = set (leaves l) \<union> set (leaves r)"
  by (simp add: written_def)

lemma fills_empty: "fills {} s s"
  by (simp add: fills_def)

lemma fills_comp: "fills L1 s s1 \<Longrightarrow> fills L2 s1 s2 \<Longrightarrow> fills (L1 \<union> L2) s s2"
  by (simp add: fills_def)

lemma fills_assign_child: "fills (child_leaf t) s (assign_child True t s)"
  by (cases t; cases s) (simp_all add: fills_def assign_child_def assign_leaf_def child_leaf_def nth_list_update)

lemma monocrit_inside: "fills (written t) s (cluster_monocrit c True t s)"
proof (induction t arbitrary: s)
  case (Leaf i)
  show ?case by (simp add: written_def fills_empty)
next
  case (Node l h r)
  let ?s1 = "cluster_monocrit c True l s"
  let ?s2 = "cluster_monocrit c True r ?s1"
  let ?s3 = "assign_child True l ?s2"
  let ?s4 = "assign_child True r ?s3"
  have "fills (written l \<union> written r \<union> child_leaf l \<union> child_leaf r) s ?s4"
    by (rule fills_comp [OF fills_comp [OF fills_comp [OF Node.IH(1) Node.IH(2)]
          fills_assign_child] fills_assign_child])
  moreover have "written l \<union> written r \<union> child_leaf l \<union> child_leaf r = written (Node l h r)"
    using written_child_leaf [of l] written_child_leaf [of r] by (auto simp: written_Node)
  moreover have "cluster_monocrit c True (Node l h r) s = ?s4" by (simp add: Let_def)
  ultimately show ?case by simp
qed

lemma leaves_nonempty: "leaves t \<noteq> []"
  by (induction t) simp_all

lemma same_flat_leaves: "same_flat c t a b \<Longrightarrow> a \<in> set (leaves t) \<and> b \<in> set (leaves t)"
  by (induction t) (auto split: if_splits)

lemma numbers_empty: "numbers {} J s s"
  by (simp add: numbers_def)

lemma numbers_cong:
  "numbers L J s s' \<Longrightarrow> (\<And>a b. a \<in> L \<Longrightarrow> b \<in> L \<Longrightarrow> J a b = J' a b) \<Longrightarrow> numbers L J' s s'"
  by (simp add: numbers_def)

lemma numbers_comp:
  assumes n1: "numbers L1 J s s1" and n2: "numbers L2 J s1 s2"
    and disj: "L1 \<inter> L2 = {}" and sub: "L1 \<union> L2 \<subseteq> {..<length (snd s)}"
    and cross: "\<And>a b. a \<in> L1 \<Longrightarrow> b \<in> L2 \<Longrightarrow> \<not> J a b \<and> \<not> J b a"
  shows "numbers (L1 \<union> L2) J s s2"
proof -
  obtain k T where s: "s = (k, T)" by (cases s)
  obtain k1 T1 where s1: "s1 = (k1, T1)" by (cases s1)
  obtain k2 T2 where s2: "s2 = (k2, T2)" by (cases s2)
  from n1 have a1: "k \<le> k1" "length T1 = length T"
    "\<And>a. a < length T \<Longrightarrow> a \<notin> L1 \<Longrightarrow> T1 ! a = T ! a"
    "(\<lambda>a. T1 ! a) ` L1 = {k <.. k1}"
    "\<And>a b. a \<in> L1 \<Longrightarrow> b \<in> L1 \<Longrightarrow> (T1 ! a = T1 ! b) = J a b"
    by (simp_all add: numbers_def s s1)
  from n2 have a2: "k1 \<le> k2" "length T2 = length T1"
    "\<And>a. a < length T1 \<Longrightarrow> a \<notin> L2 \<Longrightarrow> T2 ! a = T1 ! a"
    "(\<lambda>a. T2 ! a) ` L2 = {k1 <.. k2}"
    "\<And>a b. a \<in> L2 \<Longrightarrow> b \<in> L2 \<Longrightarrow> (T2 ! a = T2 ! b) = J a b"
    by (simp_all add: numbers_def s1 s2)
  have keep: "T2 ! a = T1 ! a" if "a \<in> L1" for a
  proof -
    have "a < length T1" using that sub a1(2) by (auto simp: s)
    moreover have "a \<notin> L2" using that disj by auto
    ultimately show ?thesis by (rule a2(3))
  qed
  have in1: "T2 ! a \<in> {k <.. k1}" if "a \<in> L1" for a
    using keep [OF that] a1(4) that by auto
  have in2: "T2 ! b \<in> {k1 <.. k2}" if "b \<in> L2" for b
    using a2(4) that by auto
  have img1: "(\<lambda>a. T2 ! a) ` L1 = {k <.. k1}"
  proof -
    have "(\<lambda>a. T2 ! a) ` L1 = (\<lambda>a. T1 ! a) ` L1" by (rule image_cong) (simp_all add: keep)
    then show ?thesis by (simp only: a1(4))
  qed
  have img: "(\<lambda>a. T2 ! a) ` (L1 \<union> L2) = {k <.. k2}"
  proof -
    have "(\<lambda>a. T2 ! a) ` (L1 \<union> L2) = {k <.. k1} \<union> {k1 <.. k2}"
      by (simp only: image_Un img1 a2(4))
    also have "\<dots> = {k <.. k2}" using a1(1) a2(1) by auto
    finally show ?thesis .
  qed
  have out: "T2 ! a = T ! a" if "a < length T" "a \<notin> L1 \<union> L2" for a
  proof -
    have "T2 ! a = T1 ! a" using that a1(2) by (intro a2(3)) auto
    also have "\<dots> = T ! a" using that by (intro a1(3)) auto
    finally show ?thesis .
  qed
  have rel: "(T2 ! a = T2 ! b) = J a b" if ab: "a \<in> L1 \<union> L2" "b \<in> L1 \<union> L2" for a b
  proof -
    consider "a \<in> L1" "b \<in> L1" | "a \<in> L2" "b \<in> L2" | "a \<in> L1" "b \<in> L2" | "a \<in> L2" "b \<in> L1"
      using ab by blast
    then show ?thesis
    proof cases
      case 1
      then show ?thesis using keep a1(5) by simp
    next
      case 2
      then show ?thesis using a2(5) by simp
    next
      case 3
      have "T2 ! a \<noteq> T2 ! b" using in1 [OF 3(1)] in2 [OF 3(2)] by auto
      then show ?thesis using cross [OF 3] by simp
    next
      case 4
      have "T2 ! a \<noteq> T2 ! b" using in1 [OF 4(2)] in2 [OF 4(1)] by auto
      then show ?thesis using cross [OF 4(2) 4(1)] by simp
    qed
  qed
  show ?thesis
    unfolding numbers_def s s2 fst_conv snd_conv
    using a1(1,2) a2(1,2) img out rel by (intro conjI allI impI ballI) auto
qed


lemma numbers_length: "numbers L J s s' \<Longrightarrow> length (snd s') = length (snd s)"
  by (simp add: numbers_def)

lemma numbers_assign_child:
  assumes "child_leaf t \<subseteq> {..<length (snd s)}"
  shows "numbers (child_leaf t) (same_flat c t) s (assign_child False t s)"
proof (cases t)
  case (Leaf i)
  obtain k T where s: "s = (k, T)" by (cases s)
  have i: "i < length T" using assms by (simp add: child_leaf_def Leaf s)
  have "{k <.. Suc k} = {Suc k}" by auto
  then show ?thesis
    using i by (simp add: numbers_def child_leaf_def Leaf s assign_child_def assign_leaf_def)
next
  case (Node l h r)
  then show ?thesis by (simp add: child_leaf_def assign_child_def numbers_empty)
qed

lemma monocrit_lead:
  assumes "max_dists (Node l h r) \<le> c"
  shows "cluster_monocrit c False (Node l h r) s
           = cluster_monocrit c True (Node l h r) (Suc (fst s), snd s)"
  using assms by (simp add: Let_def)

lemma monocrit_split:
  assumes "\<not> max_dists (Node l h r) \<le> c"
  shows "cluster_monocrit c False (Node l h r) s
           = assign_child False r (assign_child False l
               (cluster_monocrit c False r (cluster_monocrit c False l s)))"
  using assms by (simp add: Let_def)

lemma same_flat_lead:
  "max_dists (Node l h r) \<le> c \<Longrightarrow>
     same_flat c (Node l h r) a b
       = (a \<in> set (leaves (Node l h r)) \<and> b \<in> set (leaves (Node l h r)))"
  by simp

lemma same_flat_split:
  "\<not> max_dists (Node l h r) \<le> c \<Longrightarrow>
     same_flat c (Node l h r) a b = (same_flat c l a b \<or> same_flat c r a b)"
  by simp

declare cluster_monocrit.simps(2) [simp del]

declare max_dists.simps(2) [simp del]

declare same_flat.simps(2) [simp del]

lemma numbers_lead:
  assumes le: "max_dists (Node l h r) \<le> c"
    and sub: "set (leaves (Node l h r)) \<subseteq> {..<length (snd s)}"
  shows "numbers (written (Node l h r)) (same_flat c (Node l h r)) s
           (cluster_monocrit c False (Node l h r) s)"
proof -
  define t where "t = Node l h r"
  define s0 where "s0 = (Suc (fst s), snd s)"
  define s' where "s' = cluster_monocrit c True t s0"
  have f: "fills (written t) s0 s'" unfolding s'_def by (rule monocrit_inside)
  have w: "written t = set (leaves t)" by (simp add: written_def t_def)
  have ne: "set (leaves t) \<noteq> {}" using leaves_nonempty [of t] by simp
  have subt: "set (leaves t) \<subseteq> {..<length (snd s)}" using sub by (simp only: t_def)
  have val: "snd s' ! a = Suc (fst s)" if "a \<in> set (leaves t)" for a
  proof -
    have "a < length (snd s)" using that subt by auto
    then show ?thesis using f that by (simp add: fills_def w s0_def)
  qed
  define a0 where "a0 = hd (leaves t)"
  have a0: "a0 \<in> set (leaves t)" unfolding a0_def by (rule hd_in_set [OF leaves_nonempty])
  have "(\<lambda>a. snd s' ! a) ` set (leaves t) = {Suc (fst s)}"
  proof (rule equalityI)
    show "(\<lambda>a. snd s' ! a) ` set (leaves t) \<subseteq> {Suc (fst s)}" using val by blast
    show "{Suc (fst s)} \<subseteq> (\<lambda>a. snd s' ! a) ` set (leaves t)"
      using val [OF a0] a0 by (metis empty_subsetI insert_subset image_eqI)
  qed
  moreover have "{fst s <.. Suc (fst s)} = {Suc (fst s)}" by auto
  moreover have fs: "fst s' = Suc (fst s)" using f by (simp add: fills_def s0_def)
  ultimately have img: "(\<lambda>a. snd s' ! a) ` written t = {fst s <.. fst s'}"
    by (simp only: w)
  have rel: "\<forall>a \<in> written t. \<forall>b \<in> written t. (snd s' ! a = snd s' ! b) = same_flat c t a b"
  proof (intro ballI)
    fix a b assume "a \<in> written t" "b \<in> written t"
    then have ab: "a \<in> set (leaves t)" "b \<in> set (leaves t)" by (simp_all only: w)
    have "same_flat c t a b" using ab le unfolding t_def by (simp only: same_flat_lead)
    then show "(snd s' ! a = snd s' ! b) = same_flat c t a b"
      using val [OF ab(1)] val [OF ab(2)] by simp
  qed
  have rest: "fst s \<le> fst s'" "length (snd s') = length (snd s)"
    "\<forall>a < length (snd s). a \<notin> written t \<longrightarrow> snd s' ! a = snd s ! a"
    using f by (simp_all add: fills_def s0_def)
  have "numbers (written t) (same_flat c t) s s'"
    unfolding numbers_def using rest img rel by blast
  moreover have "cluster_monocrit c False (Node l h r) s = s'"
    unfolding s'_def s0_def t_def by (rule monocrit_lead [OF le])
  ultimately show ?thesis by (simp only: t_def)
qed

lemma monocrit_outside:
  "distinct (leaves t) \<Longrightarrow> set (leaves t) \<subseteq> {..<length (snd s)} \<Longrightarrow>
     numbers (written t) (same_flat c t) s (cluster_monocrit c False t s)"
proof (induction t arbitrary: s)
  case (Leaf i)
  show ?case by (simp add: written_def numbers_empty)
next
  case (Node l h r)
  show ?case
  proof (cases "max_dists (Node l h r) \<le> c")
    case True
    then show ?thesis using Node.prems(2) by (rule numbers_lead)
  next
    case False
    define J where "J = same_flat c (Node l h r)"
    define s1 where "s1 = cluster_monocrit c False l s"
    define s2 where "s2 = cluster_monocrit c False r s1"
    define s3 where "s3 = assign_child False l s2"
    define s4 where "s4 = assign_child False r s3"
    have dl: "distinct (leaves l)" and dr: "distinct (leaves r)"
      and lr: "set (leaves l) \<inter> set (leaves r) = {}"
      using Node.prems(1) by simp_all
    have sl: "set (leaves l) \<subseteq> {..<length (snd s)}" and sr: "set (leaves r) \<subseteq> {..<length (snd s)}"
      using Node.prems(2) by simp_all
    have Jdef: "J a b = (same_flat c l a b \<or> same_flat c r a b)" for a b
      unfolding J_def by (rule same_flat_split [OF False])
    have Jl: "same_flat c l a b = J a b" if "a \<in> set (leaves l)" for a b
      using that lr same_flat_leaves [of c r a b] unfolding Jdef by blast
    have Jr: "same_flat c r a b = J a b" if "a \<in> set (leaves r)" for a b
      using that lr same_flat_leaves [of c l a b] unfolding Jdef by blast
    have Jx: "\<not> J a b \<and> \<not> J b a" if "a \<in> set (leaves l)" "b \<in> set (leaves r)" for a b
      using that lr same_flat_leaves [of c l a b] same_flat_leaves [of c r a b]
        same_flat_leaves [of c l b a] same_flat_leaves [of c r b a] unfolding Jdef by blast
    have wl: "written l \<subseteq> set (leaves l)" "child_leaf l \<subseteq> set (leaves l)"
      using written_child_leaf [of l] by auto
    have wr: "written r \<subseteq> set (leaves r)" "child_leaf r \<subseteq> set (leaves r)"
      using written_child_leaf [of r] by auto
    have n1: "numbers (written l) J s s1"
    proof (rule numbers_cong)
      show "numbers (written l) (same_flat c l) s s1"
        unfolding s1_def by (rule Node.IH(1) [OF dl sl])
      show "same_flat c l a b = J a b" if "a \<in> written l" "b \<in> written l" for a b
        using that wl by (intro Jl) auto
    qed
    have len1: "length (snd s1) = length (snd s)" by (rule numbers_length [OF n1])
    have n2: "numbers (written r) J s1 s2"
    proof (rule numbers_cong)
      show "numbers (written r) (same_flat c r) s1 s2"
        unfolding s2_def by (rule Node.IH(2) [OF dr]) (simp only: len1 sr)
      show "same_flat c r a b = J a b" if "a \<in> written r" "b \<in> written r" for a b
        using that wr by (intro Jr) auto
    qed
    have len2: "length (snd s2) = length (snd s)" using numbers_length [OF n2] len1 by simp
    have n3: "numbers (child_leaf l) J s2 s3"
    proof (rule numbers_cong)
      have "child_leaf l \<subseteq> {..<length (snd s2)}" using wl sl len2 by auto
      then show "numbers (child_leaf l) (same_flat c l) s2 s3"
        unfolding s3_def by (rule numbers_assign_child)
      show "same_flat c l a b = J a b" if "a \<in> child_leaf l" "b \<in> child_leaf l" for a b
        using that wl by (intro Jl) auto
    qed
    have len3: "length (snd s3) = length (snd s)" using numbers_length [OF n3] len2 by simp
    have n4: "numbers (child_leaf r) J s3 s4"
    proof (rule numbers_cong)
      have "child_leaf r \<subseteq> {..<length (snd s3)}" using wr sr len3 by auto
      then show "numbers (child_leaf r) (same_flat c r) s3 s4"
        unfolding s4_def by (rule numbers_assign_child)
      show "same_flat c r a b = J a b" if "a \<in> child_leaf r" "b \<in> child_leaf r" for a b
        using that wr by (intro Jr) auto
    qed
    have n12: "numbers (written l \<union> written r) J s s2"
    proof (rule numbers_comp [OF n1 n2])
      show "written l \<inter> written r = {}" using wl wr lr by blast
      show "written l \<union> written r \<subseteq> {..<length (snd s)}" using wl wr sl sr by blast
      show "\<not> J a b \<and> \<not> J b a" if "a \<in> written l" "b \<in> written r" for a b
        using that wl wr by (intro Jx) auto
    qed
    have n123: "numbers (written l \<union> written r \<union> child_leaf l) J s s3"
    proof (rule numbers_comp [OF n12 n3])
      show "(written l \<union> written r) \<inter> child_leaf l = {}"
        using written_child_disj [of l] wl wr lr by blast
      show "written l \<union> written r \<union> child_leaf l \<subseteq> {..<length (snd s)}"
        using wl wr sl sr by blast
      show "\<not> J a b \<and> \<not> J b a" if ab: "a \<in> written l \<union> written r" "b \<in> child_leaf l" for a b
      proof -
        have bl: "b \<in> set (leaves l)" using ab(2) wl by auto
        have "a \<notin> written l" using ab(2) by (cases l) (simp_all add: written_def child_leaf_def)
        then have "a \<in> set (leaves r)" using ab(1) wr by auto
        then show ?thesis using Jx [OF bl] by blast
      qed
    qed
    have n1234: "numbers (written l \<union> written r \<union> child_leaf l \<union> child_leaf r) J s s4"
    proof (rule numbers_comp [OF n123 n4])
      show "(written l \<union> written r \<union> child_leaf l) \<inter> child_leaf r = {}"
        using written_child_disj [of r] wl wr lr by blast
      show "written l \<union> written r \<union> child_leaf l \<union> child_leaf r \<subseteq> {..<length (snd s)}"
        using wl wr sl sr by blast
      show "\<not> J a b \<and> \<not> J b a" if ab: "a \<in> written l \<union> written r \<union> child_leaf l" "b \<in> child_leaf r" for a b
      proof -
        have br: "b \<in> set (leaves r)" using ab(2) wr by auto
        have "a \<notin> written r" using ab(2) by (cases r) (simp_all add: written_def child_leaf_def)
        then have "a \<in> set (leaves l)" using ab(1) wl by auto
        then show ?thesis using Jx [OF _ br] by blast
      qed
    qed
    have "written l \<union> written r \<union> child_leaf l \<union> child_leaf r = written (Node l h r)"
      using written_child_leaf [of l] written_child_leaf [of r] by (auto simp: written_Node)
    moreover have "cluster_monocrit c False (Node l h r) s = s4"
      unfolding s4_def s3_def s2_def s1_def by (rule monocrit_split [OF False])
    ultimately show ?thesis using n1234 by (simp only: J_def)
  qed
qed

lemma leaves_perm:
  assumes "mset (leaves t) = mset [0..<n]"
  shows "distinct (leaves t)" "set (leaves t) = {0..<n}" "length (leaves t) = n"
proof -
  have "distinct (leaves t) = distinct [0..<n]" by (rule mset_eq_imp_distinct_iff [OF assms])
  then show "distinct (leaves t)" by simp
  have "set (leaves t) = set [0..<n]" by (rule mset_eq_setD [OF assms])
  then show "set (leaves t) = {0..<n}" by simp
  have "length (leaves t) = length [0..<n]" by (rule mset_eq_length [OF assms])
  then show "length (leaves t) = n" by simp
qed

lemma fcluster_props:
  assumes m: "mset (leaves t) = mset [0..<n]" and n: "2 \<le> n"
  shows "length (fcluster t c) = n"
    and "\<exists>k\<ge>1. set (fcluster t c) = {1..k}"
    and "\<And>a b. a < n \<Longrightarrow> b < n
           \<Longrightarrow> (fcluster t c ! a = fcluster t c ! b) = same_flat c t a b"
proof -
  define s where "s = (0::nat, replicate (length (leaves t)) (0::nat))"
  define s' where "s' = cluster_monocrit c False t s"
  have T: "fcluster t c = snd s'" by (simp add: fcluster_def s'_def s_def)
  note lp = leaves_perm [OF m]
  have ls: "length (snd s) = n" by (simp add: s_def lp(3))
  have fs: "fst s = 0" by (simp add: s_def)
  have sub: "set (leaves t) \<subseteq> {..<length (snd s)}"
    by (simp only: ls lp(2)) (simp add: subset_iff)
  have num: "numbers (written t) (same_flat c t) s s'"
    unfolding s'_def by (rule monocrit_outside [OF lp(1) sub])
  have len: "length (snd s') = n" using numbers_length [OF num] ls by simp
  show "length (fcluster t c) = n" by (simp only: T len)
  have w: "written t = {0..<n}"
  proof (cases t)
    case (Leaf i)
    then have "n = 1" using lp(3) by simp
    then show ?thesis using n by simp
  next
    case (Node l h r)
    then have "written t = set (leaves t)" by (simp add: written_def)
    then show ?thesis by (simp only: lp(2))
  qed
  have img: "(\<lambda>a. snd s' ! a) ` {0..<n} = {0 <.. fst s'}"
    using num unfolding numbers_def w fs by blast
  have rel: "\<forall>a \<in> {0..<n}. \<forall>b \<in> {0..<n}. (snd s' ! a = snd s' ! b) = same_flat c t a b"
    using num unfolding numbers_def w by blast
  have "(\<lambda>a. snd s' ! a) ` {0..<length (snd s')} = set (snd s')"
    using nth_image [of "length (snd s')" "snd s'"] by simp
  then have st: "set (snd s') = {0 <.. fst s'}" using img by (simp only: len)
  have "snd s' ! 0 \<in> set (snd s')" using n len by simp
  then have k1: "1 \<le> fst s'" unfolding st by simp
  have "{0 <.. fst s'} = {1 .. fst s'}" by (rule set_eqI) (simp add: Suc_le_eq)
  then have "set (fcluster t c) = {1 .. fst s'}" by (simp only: T st)
  then show "\<exists>k\<ge>1. set (fcluster t c) = {1..k}" using k1 by blast
  show "(fcluster t c ! a = fcluster t c ! b) = same_flat c t a b"
    if "a < n" "b < n" for a b
    using rel that by (simp add: T)
qed

section \<open>What the clusterer writes\<close>

lemma length_distance_matrix: "length (distance_matrix xs ys) = length xs"
  by (simp add: distance_matrix_def)

lemma length_normalize_l1: "length (normalize_l1 ws) = length ws"
  by (simp add: normalize_l1_def Let_def)

lemma setitems_heap:
  assumes "length cl = length (heap s a)" "length wt = length (heap s a)"
    "length bal = length (heap s a)"
  shows "setitem_balance a bal (setitem_weight a wt (setitem_cluster a cl s))
           = s\<lparr>heap := (heap s)(a := with_columns (heap s a) cl wt bal)\<rparr>"
proof -
  define rows where "rows = heap s a"
  have "map (\<lambda>(p, v). p\<lparr>balance := Some v\<rparr>)
          (zip (map (\<lambda>(p, v). p\<lparr>weight := Some v\<rparr>)
             (zip (map (\<lambda>(p, v). p\<lparr>cluster := Some v\<rparr>) (zip rows cl)) wt)) bal)
        = with_columns rows cl wt bal"
    using assms unfolding rows_def [symmetric]
    by (intro nth_equalityI) (simp_all add: with_columns_def)
  then show ?thesis
    by (simp add: setitem_balance_def setitem_weight_def setitem_cluster_def rows_def)
qed

lemma compute_cluster_eq:
  assumes big: "2 < length (heap s a)"
  shows "\<exists>lnk. linkage (pdist (distance_matrix (map coords (heap s a)) (map coords (heap s a))))
                 = Inr lnk
     \<and> mset (leaves lnk) = mset [0..<length (heap s a)]
     \<and> compute_cluster a s =
         (Inr (lnk, distance_matrix (map coords (heap s a)) (map coords (heap s a)), a),
          s\<lparr>heap := (heap s)(a := with_columns (heap s a)
             (fcluster lnk (0.17 * maxl (pdist (distance_matrix (map coords (heap s a))
                 (map coords (heap s a))))))
             (map row_weight (distance_matrix (map coords (heap s a)) (map coords (heap s a))))
             (normalize_l1 (map real (map row_weight
                 (distance_matrix (map coords (heap s a)) (map coords (heap s a)))))))\<rparr>)"
proof -
  define rows where "rows = heap s a"
  define M where "M = distance_matrix (map coords rows) (map coords rows)"
  have lM: "length M = length rows" by (simp add: M_def length_distance_matrix)
  have two: "2 \<le> length M" using big lM by (simp add: rows_def)
  obtain lnk where lnk: "linkage (pdist M) = Inr lnk"
    and ml: "mset (leaves lnk) = mset [0..<length M]"
    using linkage_pdist [OF two] by blast
  define cl where "cl = fcluster lnk (0.17 * maxl (pdist M))"
  have lcl: "length cl = length rows"
    unfolding cl_def using fcluster_props(1) [OF ml two] lM by simp
  have "compute_cluster a s =
      (Inr (lnk, M, a), setitem_balance a (normalize_l1 (map real (map row_weight M)))
         (setitem_weight a (map row_weight M) (setitem_cluster a cl s)))"
    using big lnk by (simp add: compute_cluster_def Let_def M_def rows_def cl_def)
  also have "setitem_balance a (normalize_l1 (map real (map row_weight M)))
         (setitem_weight a (map row_weight M) (setitem_cluster a cl s))
       = s\<lparr>heap := (heap s)(a := with_columns (heap s a) cl (map row_weight M)
             (normalize_l1 (map real (map row_weight M))))\<rparr>"
    by (rule setitems_heap) (simp_all add: lcl lM length_normalize_l1 rows_def [symmetric])
  finally have eq: "compute_cluster a s =
      (Inr (lnk, M, a), s\<lparr>heap := (heap s)(a := with_columns (heap s a) cl (map row_weight M)
             (normalize_l1 (map real (map row_weight M))))\<rparr>)" .
  have ml': "mset (leaves lnk) = mset [0..<length rows]" using ml by (simp only: lM)
  show ?thesis
  proof (intro exI conjI)
    show "linkage (pdist (distance_matrix (map coords (heap s a)) (map coords (heap s a))))
            = Inr lnk"
      using lnk by (simp only: M_def rows_def)
    show "mset (leaves lnk) = mset [0..<length (heap s a)]"
      using ml' by (simp only: rows_def)
    show "compute_cluster a s =
         (Inr (lnk, distance_matrix (map coords (heap s a)) (map coords (heap s a)), a),
          s\<lparr>heap := (heap s)(a := with_columns (heap s a)
             (fcluster lnk (0.17 * maxl (pdist (distance_matrix (map coords (heap s a))
                 (map coords (heap s a))))))
             (map row_weight (distance_matrix (map coords (heap s a)) (map coords (heap s a))))
             (normalize_l1 (map real (map row_weight
                 (distance_matrix (map coords (heap s a)) (map coords (heap s a)))))))\<rparr>)"
      using eq by (simp only: M_def rows_def cl_def)
  qed
qed

section \<open>Degenerate groups\<close>

text \<open>
  Claim C1. A feature-type group with two or fewer points is meant to be skipped, the call
  returning normally with no consensus row for that type. On a table of two Hydrophobic
  points the call does not return: \<^verbatim>\<open>__compute_cluster\<close> raises
  \<^verbatim>\<open>UnboundLocalError\<close> at its \<^verbatim>\<open>return\<close>, whatever the other arguments are.
\<close>

theorem two_point_group_raises:
  "fst (compute_concensus_pharmacophore 0 save_data out_folder h_dist (store_of two_hydrophobic))
     = Inl UnboundLocalError"
  by (simp add: compute_concensus_pharmacophore_def two_hydrophobic_def mk_point_def
      store_of_def get_group_name_def alloc_def compute_cluster_def)

section \<open>The cluster reducer\<close>

text \<open>
  Claim C7. The radius returned by the cluster reducer is never below the floor of the
  feature type: at least 1 when Hydrophobic occurs among the names of the cluster, at
  least 0.5 otherwise, whatever the geometric radius was.
\<close>

theorem reducer_radius_floor:
  "compute_center_of_mass_and_radius tbl = Inr (center_of_mass, r) \<Longrightarrow>
     (if ''Hydrophobic'' \<in> set (map name tbl) then 1 \<le> r else 0.5 \<le> r)"
  by (auto simp: compute_center_of_mass_and_radius_def clamp_radius_def
      split: sum.splits if_splits)

theorem reducer_radius_floor_witness:
  "compute_center_of_mass_and_radius single_cluster = Inr ([2, 3, 5], 1)
   \<and> ''Hydrophobic'' \<in> set (map name single_cluster) \<and> (1::real) \<le> 1"
proof -
  have r: "compute_center_of_mass_and_radius single_cluster = Inr ([2, 3, 5], 1)"
    by (simp add: compute_center_of_mass_and_radius_def single_cluster_def mk_point_def
        column_weight_def average_def raw_radius_def euclidean_def coords_def clamp_radius_def)
  from reducer_radius_floor [OF r] r show ?thesis
    by (simp add: single_cluster_def mk_point_def)
qed

section \<open>The argument \<^verbatim>\<open>h_dist\<close>\<close>

text \<open>
  Claim C10. For every table and any two values \<open>a\<close> and \<open>b\<close> of \<^verbatim>\<open>h_dist\<close>, the two
  calls return the same consensus table and the same links (and leave the same store):
  the result does not depend on \<^verbatim>\<open>h_dist\<close>.
\<close>

theorem h_dist_irrelevant:
  "compute_concensus_pharmacophore table save_data out_folder a s
     = compute_concensus_pharmacophore table save_data out_folder b s"
  by (simp add: compute_concensus_pharmacophore_def)

end
